theory Spec2Isabelle
  imports Main "HOL-Library.Word" "HOL-Library.Monad_Syntax"
begin

unbundle bit_operations_syntax

section \<open>The xs string of xs.c\<close>

text \<open>
  A shallow embedding of \<^verbatim>\<open>src/xs.c\<close>: the union \<^verbatim>\<open>xs\<close>, its accessors, and
  \<^verbatim>\<open>xs_new\<close>, \<^verbatim>\<open>xs_grow\<close>, \<^verbatim>\<open>xs_free\<close>, \<^verbatim>\<open>xs_concat\<close>, \<^verbatim>\<open>xs_trim\<close> and \<^verbatim>\<open>xs_cpy\<close>.

  Conventions.
  \<^item> The layout of the union is the one of the x86-64 System V ABI, which the source relies on
    (GCC and Clang, little endian, bit-fields allocated from the least significant bit):
    bytes 0..7 hold \<^verbatim>\<open>data[0..7]\<close> or \<^verbatim>\<open>ptr\<close>; bytes 8..15 hold \<^verbatim>\<open>data[8..15]\<close>, that is one
    64-bit unit with \<^verbatim>\<open>size\<close> in bits 0..53, \<^verbatim>\<open>capacity\<close> in bits 54..59, and whose top byte
    (byte 15) carries \<^verbatim>\<open>space_left\<close> in bits 56..59, \<^verbatim>\<open>is_ptr\<close> in bit 60 and \<^verbatim>\<open>flag1\<close> in
    bit 61; bytes 16..23 hold \<^verbatim>\<open>refcnt\<close>.
  \<^item> The heap is a list of blocks; a pointer returned by \<^verbatim>\<open>malloc\<close> is the index of a new
    block, so it is fresh, and a freed block is never handed out again. \<^verbatim>\<open>malloc\<close> always
    succeeds. A new buffer holds arbitrary bytes, taken from the field \<open>junk\<close> of the heap.
  \<^item> A pointer stored in bytes 0..7 of the union is kept as the block it points to together
    with its eight bytes, the address of the block, taken from the field \<open>addr\<close> of the heap;
    nothing is assumed about these addresses. Reading \<^verbatim>\<open>data[0..7]\<close> while a pointer is stored
    there gives the bytes of the address; writing a character there leaves eight plain bytes,
    and plain bytes other than zeros point to no object.
  \<^item> Undefined behaviour of the C program (an access outside a block or to a freed block,
    \<^verbatim>\<open>__builtin_clz(0)\<close>, a string without terminator, overlapping \<^verbatim>\<open>memcpy\<close>) is the
    result \<open>None\<close>.
  \<^item> Values of type \<^verbatim>\<open>size_t\<close> are natural numbers; where the C arithmetic can wrap around
    (\<^verbatim>\<open>slen -= i\<close> in \<^verbatim>\<open>xs_trim\<close>, \<^verbatim>\<open>15 - ...\<close> assigned to a bit-field, the conversion to
    \<^verbatim>\<open>uint32_t\<close> at \<^verbatim>\<open>ilog2\<close>) the wrap-around is written out.
\<close>

subsection \<open>Heap\<close>

type_synonym byte = "8 word"

datatype block = Buf nat "nat \<Rightarrow> byte" | Cnt int | Freed

record heap =
  blocks :: "block list"
  junk :: "nat \<Rightarrow> nat \<Rightarrow> byte"
  addr :: "nat \<Rightarrow> 64 word"

text \<open>Where a \<^verbatim>\<open>char *\<close> points: into the \<^verbatim>\<open>data\<close> array of the value itself, to a heap
  buffer, nowhere (\<^verbatim>\<open>NULL\<close>), or to no object at all.\<close>

datatype cptr = Stk | Hp nat | Null | Wild

definition buf_of :: "heap \<Rightarrow> nat \<Rightarrow> (nat \<times> (nat \<Rightarrow> byte)) option" where
  "buf_of h q = (if q < length (blocks h)
     then (case blocks h ! q of Buf sz f \<Rightarrow> Some (sz, f) | _ \<Rightarrow> None) else None)"

definition cnt_of :: "heap \<Rightarrow> nat \<Rightarrow> int option" where
  "cnt_of h r = (if r < length (blocks h)
     then (case blocks h ! r of Cnt c \<Rightarrow> Some c | _ \<Rightarrow> None) else None)"

definition cnt_set :: "heap \<Rightarrow> nat \<Rightarrow> int \<Rightarrow> heap" where
  "cnt_set h r c = h\<lparr>blocks := (blocks h)[r := Cnt c]\<rparr>"

definition malloc :: "heap \<Rightarrow> nat \<Rightarrow> heap \<times> nat" where
  "malloc h n =
     (h\<lparr>blocks := blocks h @ [Buf n (junk h (length (blocks h)))]\<rparr>, length (blocks h))"

text \<open>\<^verbatim>\<open>malloc(sizeof(int))\<close>: the new cell is written before it is read.\<close>

definition malloc_int :: "heap \<Rightarrow> heap \<times> nat" where
  "malloc_int h = (h\<lparr>blocks := blocks h @ [Cnt 0]\<rparr>, length (blocks h))"

definition free :: "heap \<Rightarrow> cptr \<Rightarrow> heap option" where
  "free h p = (case p of
       Hp q \<Rightarrow> (case buf_of h q of
                  Some _ \<Rightarrow> Some (h\<lparr>blocks := (blocks h)[q := Freed]\<rparr>)
                | None \<Rightarrow> None)
     | Null \<Rightarrow> Some h
     | _ \<Rightarrow> None)"

definition free_cnt :: "heap \<Rightarrow> nat \<Rightarrow> heap option" where
  "free_cnt h r = (case cnt_of h r of
       Some _ \<Rightarrow> Some (h\<lparr>blocks := (blocks h)[r := Freed]\<rparr>)
     | None \<Rightarrow> None)"

text \<open>\<^verbatim>\<open>realloc\<close> as the C standard defines it: the old object is deallocated and a new
  object is returned, which holds the old contents up to the lesser of the two sizes.\<close>

definition realloc :: "heap \<Rightarrow> cptr \<Rightarrow> nat \<Rightarrow> (heap \<times> nat) option" where
  "realloc h p n = (case p of
       Hp q \<Rightarrow> (case buf_of h q of
                  Some (sz, f) \<Rightarrow>
                    Some (h\<lparr>blocks := (blocks h)[q := Freed] @
                            [Buf n (\<lambda>i. if i < min sz n then f i
                                         else junk h (length (blocks h)) i)]\<rparr>,
                          length (blocks h))
                | None \<Rightarrow> None)
     | Null \<Rightarrow> Some (malloc h n)
     | _ \<Rightarrow> None)"

subsection \<open>Bit-fields and the union\<close>

definition bf_get :: "nat \<Rightarrow> nat \<Rightarrow> 64 word \<Rightarrow> 64 word" where
  "bf_get pos len w = take_bit len (drop_bit pos w)"

definition bf_set :: "nat \<Rightarrow> nat \<Rightarrow> 64 word \<Rightarrow> 64 word \<Rightarrow> 64 word" where
  "bf_set pos len v w = (w AND NOT (push_bit pos (mask len))) OR push_bit pos (take_bit len v)"

text \<open>Bytes 0..7: eight characters, or a pointer to the block \<open>q\<close> whose eight bytes are
  \<open>w\<close>.\<close>

datatype word0 = Chars "64 word" | Addr nat "64 word"

definition bits_of :: "word0 \<Rightarrow> 64 word" where
  "bits_of v = (case v of Chars w \<Rightarrow> w | Addr q w \<Rightarrow> w)"

text \<open>The pointer to the block \<open>q\<close>, as \<^verbatim>\<open>malloc\<close> and \<^verbatim>\<open>realloc\<close> return it.\<close>

definition ptr_val :: "heap \<Rightarrow> nat \<Rightarrow> word0" where
  "ptr_val h q = Addr q (addr h q)"

record xs =
  w0 :: word0
  w1 :: "64 word"
  refcnt :: "nat option"

definition space_left :: "xs \<Rightarrow> nat" where
  "space_left x = unat (bf_get 56 4 (w1 x))"

definition set_space_left :: "64 word \<Rightarrow> xs \<Rightarrow> xs" where
  "set_space_left v x = x\<lparr>w1 := bf_set 56 4 v (w1 x)\<rparr>"

definition is_ptr :: "xs \<Rightarrow> bool" where
  "is_ptr x = bit (w1 x) 60"

definition set_is_ptr :: "bool \<Rightarrow> xs \<Rightarrow> xs" where
  "set_is_ptr b x = x\<lparr>w1 := bf_set 60 1 (of_bool b) (w1 x)\<rparr>"

definition flag1 :: "xs \<Rightarrow> bool" where
  "flag1 x = bit (w1 x) 61"

definition set_flag1 :: "bool \<Rightarrow> xs \<Rightarrow> xs" where
  "set_flag1 b x = x\<lparr>w1 := bf_set 61 1 (of_bool b) (w1 x)\<rparr>"

definition size_field :: "xs \<Rightarrow> nat" where
  "size_field x = unat (bf_get 0 54 (w1 x))"

definition set_size :: "64 word \<Rightarrow> xs \<Rightarrow> xs" where
  "set_size v x = x\<lparr>w1 := bf_set 0 54 v (w1 x)\<rparr>"

definition capacity_field :: "xs \<Rightarrow> nat" where
  "capacity_field x = unat (bf_get 54 6 (w1 x))"

definition set_capacity :: "64 word \<Rightarrow> xs \<Rightarrow> xs" where
  "set_capacity v x = x\<lparr>w1 := bf_set 54 6 v (w1 x)\<rparr>"

definition ptr_of :: "word0 \<Rightarrow> cptr" where
  "ptr_of v = (case v of Addr q w \<Rightarrow> Hp q | Chars w \<Rightarrow> if w = 0 then Null else Wild)"

text \<open>The characters \<^verbatim>\<open>data[i]\<close> of the inline layout.\<close>

definition get_byte :: "64 word \<Rightarrow> nat \<Rightarrow> byte" where
  "get_byte w i = ucast (bf_get (8 * i) 8 w)"

definition put_byte :: "nat \<Rightarrow> byte \<Rightarrow> 64 word \<Rightarrow> 64 word" where
  "put_byte i b w = bf_set (8 * i) 8 (ucast b) w"

definition data_get :: "xs \<Rightarrow> nat \<Rightarrow> byte option" where
  "data_get x i =
     (if i < 8 then Some (get_byte (bits_of (w0 x)) i)
      else if i < 16 then Some (get_byte (w1 x) (i - 8))
      else None)"

definition data_put :: "nat \<Rightarrow> byte \<Rightarrow> xs \<Rightarrow> xs option" where
  "data_put i b x =
     (if i < 8 then Some (x\<lparr>w0 := Chars (put_byte i b (bits_of (w0 x)))\<rparr>)
      else if i < 16 then Some (x\<lparr>w1 := put_byte (i - 8) b (w1 x)\<rparr>)
      else None)"

fun data_puts :: "nat \<Rightarrow> byte list \<Rightarrow> xs \<Rightarrow> xs option" where
  "data_puts i [] x = Some x"
| "data_puts i (b # bs) x = (case data_put i b x of None \<Rightarrow> None | Some x' \<Rightarrow> data_puts (Suc i) bs x')"

subsection \<open>Accessors\<close>

definition xs_is_ptr :: "xs \<Rightarrow> bool" where
  "xs_is_ptr x = is_ptr x"

definition xs_size :: "xs \<Rightarrow> nat" where
  "xs_size x = (if xs_is_ptr x then size_field x else 15 - space_left x)"

definition xs_data :: "xs \<Rightarrow> cptr" where
  "xs_data x = (if xs_is_ptr x then ptr_of (w0 x) else Stk)"

definition xs_capacity :: "xs \<Rightarrow> nat" where
  "xs_capacity x = (if xs_is_ptr x then 2 ^ capacity_field x - 1 else 15)"

text \<open>\<^verbatim>\<open>(xs) { .space_left = 15, .refcnt = NULL }\<close>: the two designators name members of
  different structs of the union. The later one, \<^verbatim>\<open>.refcnt\<close>, selects the struct of the heap
  layout and overrides the initializer of \<^verbatim>\<open>space_left\<close>: all 24 bytes are zero, so
  \<^verbatim>\<open>space_left\<close> is 0 and not 15, and \<^verbatim>\<open>xs_size\<close> of this value is 15.\<close>

definition xs_literal_empty :: xs where
  "xs_literal_empty = \<lparr>w0 = Chars 0, w1 = 0, refcnt = None\<rparr>"

subsection \<open>Reading and writing memory\<close>

text \<open>\<open>load h x p off n\<close> are the \<open>n\<close> bytes at \<open>p + off\<close>; \<open>x\<close> is the value whose \<^verbatim>\<open>data\<close>
  array \<open>Stk\<close> stands for.\<close>

definition load :: "heap \<Rightarrow> xs \<Rightarrow> cptr \<Rightarrow> nat \<Rightarrow> nat \<Rightarrow> byte list option" where
  "load h x p off n = (case p of
       Stk \<Rightarrow> (if off + n \<le> 16 then those (map (data_get x) [off..<off + n]) else None)
     | Hp q \<Rightarrow> (case buf_of h q of
                  Some (sz, f) \<Rightarrow> (if off + n \<le> sz then Some (map f [off..<off + n]) else None)
                | None \<Rightarrow> None)
     | _ \<Rightarrow> None)"

definition store :: "heap \<Rightarrow> xs \<Rightarrow> cptr \<Rightarrow> nat \<Rightarrow> byte list \<Rightarrow> (heap \<times> xs) option" where
  "store h x p off bs = (case p of
       Stk \<Rightarrow> (case data_puts off bs x of None \<Rightarrow> None | Some x' \<Rightarrow> Some (h, x'))
     | Hp q \<Rightarrow> (case buf_of h q of
                  Some (sz, f) \<Rightarrow>
                    (if off + length bs \<le> sz
                     then Some (h\<lparr>blocks := (blocks h)[q := Buf sz
                             (\<lambda>i. if off \<le> i \<and> i < off + length bs then bs ! (i - off) else f i)]\<rparr>, x)
                     else None)
                | None \<Rightarrow> None)
     | _ \<Rightarrow> None)"

text \<open>\<^verbatim>\<open>memmove(d + doff, s + soff, n)\<close>, where \<open>dx\<close> owns the destination and \<open>sx\<close> the
  source when they are \<open>Stk\<close>. The result is the heap and the destination's owner.\<close>

definition memmove ::
  "heap \<Rightarrow> xs \<Rightarrow> cptr \<Rightarrow> nat \<Rightarrow> xs \<Rightarrow> cptr \<Rightarrow> nat \<Rightarrow> nat \<Rightarrow> (heap \<times> xs) option" where
  "memmove h dx d doff sx s soff n =
     (case load h sx s soff n of None \<Rightarrow> None | Some bs \<Rightarrow> store h dx d doff bs)"

text \<open>\<^verbatim>\<open>memcpy\<close> between two distinct objects; within one heap buffer the two ranges must
  not overlap.\<close>

definition memcpy ::
  "heap \<Rightarrow> xs \<Rightarrow> cptr \<Rightarrow> nat \<Rightarrow> xs \<Rightarrow> cptr \<Rightarrow> nat \<Rightarrow> nat \<Rightarrow> (heap \<times> xs) option" where
  "memcpy h dx d doff sx s soff n =
     (if d = s \<and> d \<noteq> Stk \<and> doff < soff + n \<and> soff < doff + n then None
      else memmove h dx d doff sx s soff n)"

text \<open>\<^verbatim>\<open>strlen\<close> of the characters \<open>p\<close> of an array: undefined without a terminator.\<close>

definition strlen :: "byte list \<Rightarrow> nat option" where
  "strlen p = (if 0 \<in> set p then Some (length (takeWhile (\<lambda>c. c \<noteq> 0) p)) else None)"

definition strlen_at :: "heap \<Rightarrow> cptr \<Rightarrow> nat option" where
  "strlen_at h p = (case p of
       Hp q \<Rightarrow> (case buf_of h q of Some (sz, f) \<Rightarrow> strlen (map f [0..<sz]) | None \<Rightarrow> None)
     | _ \<Rightarrow> None)"

subsection \<open>ilog2\<close>

fun clz_below :: "nat \<Rightarrow> 32 word \<Rightarrow> nat" where
  "clz_below 0 n = 0"
| "clz_below (Suc k) n = (if bit n k then 0 else Suc (clz_below k n))"

text \<open>\<^verbatim>\<open>__builtin_clz\<close>: the number of leading zero bits; undefined at 0.\<close>

definition builtin_clz :: "32 word \<Rightarrow> nat option" where
  "builtin_clz n = (if n = 0 then None else Some (clz_below 32 n))"

definition ilog2 :: "32 word \<Rightarrow> nat option" where
  "ilog2 n = (case builtin_clz n of None \<Rightarrow> None | Some c \<Rightarrow> Some (32 - c - 1))"

subsection \<open>xs_new\<close>

definition xs_new :: "heap \<Rightarrow> byte list \<Rightarrow> (heap \<times> xs) option" where
  "xs_new h p = do {
     n \<leftarrow> strlen p;
     let x = xs_literal_empty;
     let len = (n + 1) mod 2 ^ 64;
     if len > 16 then do {
       l \<leftarrow> ilog2 (of_nat len);
       let x = set_capacity (of_nat (l + 1)) x;
       let x = set_size (of_nat (len - 1)) x;
       let x = set_is_ptr True x;
       let (h, q) = malloc h (2 ^ capacity_field x);
       let x = x\<lparr>w0 := ptr_val h q\<rparr>;
       store h x (ptr_of (w0 x)) 0 (take len p)
     } else do {
       (h, x) \<leftarrow> store h x Stk 0 (take len p);
       Some (h, set_space_left (15 - of_nat (len - 1)) x)
     }
   }"

text \<open>The observable content: the \<^verbatim>\<open>xs_size(x)\<close> bytes at \<^verbatim>\<open>xs_data(x)\<close>.\<close>

definition xs_content :: "heap \<Rightarrow> xs \<Rightarrow> byte list option" where
  "xs_content h x = load h x (xs_data x) 0 (xs_size x)"

subsection \<open>xs_grow\<close>

definition xs_grow :: "heap \<Rightarrow> xs \<Rightarrow> nat \<Rightarrow> (heap \<times> xs) option" where
  "xs_grow h x len =
     (if len \<le> xs_capacity x then Some (h, x)
      else do {
        l \<leftarrow> ilog2 (of_nat len);
        let len = l + 1;
        (h, x) \<leftarrow>
          (if xs_is_ptr x then do {
             (h, q) \<leftarrow> realloc h (ptr_of (w0 x)) (2 ^ len);
             Some (h, x\<lparr>w0 := ptr_val h q\<rparr>)
           } else do {
             buf \<leftarrow> load h x Stk 0 16;
             let (h, q) = malloc h (2 ^ len);
             let x = x\<lparr>w0 := ptr_val h q\<rparr>;
             store h x (ptr_of (w0 x)) 0 buf
           });
        let x = set_is_ptr True x;
        Some (h, set_capacity (of_nat len) x)
      })"

subsection \<open>xs_free\<close>

definition xs_newempty :: xs where
  "xs_newempty = xs_literal_empty"

definition xs_free :: "heap \<Rightarrow> xs \<Rightarrow> (heap \<times> xs) option" where
  "xs_free h x = do {
     h \<leftarrow> (if xs_is_ptr x then free h (xs_data x) else Some h);
     Some (h, xs_newempty)
   }"

subsection \<open>The reference count\<close>

text \<open>The test \<^verbatim>\<open>x->flag1 && x->refcnt && *(x->refcnt) > 0\<close> of \<^verbatim>\<open>xs_concat\<close> and
  \<^verbatim>\<open>xs_trim\<close>; the count is read only when the first two conjuncts hold.\<close>

definition shared :: "heap \<Rightarrow> xs \<Rightarrow> bool option" where
  "shared h x =
     (if flag1 x then (case refcnt x of
          None \<Rightarrow> Some False
        | Some r \<Rightarrow> do { c \<leftarrow> cnt_of h r; Some (c > 0) })
      else Some False)"

text \<open>\<^verbatim>\<open>if (*(x->refcnt) == 0) { free(x->refcnt); x->refcnt = NULL; }\<close>\<close>

definition drop_if_zero :: "heap \<Rightarrow> xs \<Rightarrow> (heap \<times> xs) option" where
  "drop_if_zero h x = (case refcnt x of
       None \<Rightarrow> None
     | Some r \<Rightarrow> do {
         c \<leftarrow> cnt_of h r;
         if c = 0 then do { h \<leftarrow> free_cnt h r; Some (h, x\<lparr>refcnt := None\<rparr>) }
         else Some (h, x)
       })"

text \<open>\<^verbatim>\<open>*(x->refcnt) -= 1\<close> and \<^verbatim>\<open>*(x->refcnt) += 1\<close>, the latter undefined on overflow of
  \<^verbatim>\<open>int\<close>.\<close>

definition decr :: "heap \<Rightarrow> xs \<Rightarrow> heap option" where
  "decr h x = (case refcnt x of
       None \<Rightarrow> None
     | Some r \<Rightarrow> do {
         c \<leftarrow> cnt_of h r;
         if c = - 2147483648 then None else Some (cnt_set h r (c - 1))
       })"

definition incr :: "heap \<Rightarrow> xs \<Rightarrow> heap option" where
  "incr h x = (case refcnt x of
       None \<Rightarrow> None
     | Some r \<Rightarrow> do {
         c \<leftarrow> cnt_of h r;
         if c = 2147483647 then None else Some (cnt_set h r (c + 1))
       })"

subsection \<open>xs_concat\<close>

text \<open>The block of the in-place branch of \<^verbatim>\<open>xs_concat\<close> that gives a sharing string a
  buffer of its own (\<^verbatim>\<open>/* create new space */\<close>); the result carries the new \<^verbatim>\<open>data\<close>.\<close>

definition concat_new_space :: "heap \<Rightarrow> xs \<Rightarrow> nat \<Rightarrow> cptr \<Rightarrow> (heap \<times> xs \<times> cptr) option" where
  "concat_new_space h string capacity data = do {
     sh \<leftarrow> shared h string;
     if sh then do {
       h \<leftarrow> decr h string;
       let string = set_flag1 False string;
       let (h, q) = malloc h capacity;
       let string = string\<lparr>w0 := ptr_val h q\<rparr>;
       let data = ptr_of (w0 string);
       (h, string) \<leftarrow> drop_if_zero h string;
       Some (h, string, data)
     } else Some (h, string, data)
   }"

text \<open>The block of the other branch that gives up the old buffer.\<close>

definition concat_release :: "heap \<Rightarrow> xs \<Rightarrow> (heap \<times> xs) option" where
  "concat_release h string = do {
     sh \<leftarrow> shared h string;
     if sh then do { h \<leftarrow> decr h string; drop_if_zero h string }
     else xs_free h string
   }"

definition xs_concat :: "heap \<Rightarrow> xs \<Rightarrow> xs \<Rightarrow> xs \<Rightarrow> (heap \<times> xs) option" where
  "xs_concat h string prefix suffix =
     (let pres = xs_size prefix; sufs = xs_size suffix;
          size = xs_size string; capacity = xs_capacity string;
          pre = xs_data prefix; suf = xs_data suffix; data = xs_data string
      in
      if size + pres + sufs \<le> capacity then do {
        (h, string, data) \<leftarrow> concat_new_space h string capacity data;
        (h, string) \<leftarrow> memmove h string data pres string data 0 size;
        (h, string) \<leftarrow> memcpy h string data 0 prefix pre 0 pres;
        (h, string) \<leftarrow> memcpy h string data (pres + size) suffix suf 0 (sufs + 1);
        Some (h, set_space_left (15 - of_nat (size + pres + sufs)) string)
      } else do {
        let tmps = xs_literal_empty;
        (h, tmps) \<leftarrow> xs_grow h tmps (size + pres + sufs);
        let tmpdata = xs_data tmps;
        (h, tmps) \<leftarrow> memcpy h tmps tmpdata pres string data 0 size;
        (h, tmps) \<leftarrow> memcpy h tmps tmpdata 0 prefix pre 0 pres;
        (h, tmps) \<leftarrow> memcpy h tmps tmpdata (pres + size) suffix suf 0 (sufs + 1);
        (h, string) \<leftarrow> concat_release h string;
        let tmps = set_flag1 False tmps;
        let string = tmps;
        Some (h, set_size (of_nat (size + pres + sufs)) string)
      })"

subsection \<open>xs_trim\<close>

text \<open>The macros \<^verbatim>\<open>set_bit\<close> and \<^verbatim>\<open>check_bit\<close> on \<^verbatim>\<open>uint8_t mask[32]\<close>.\<close>

definition set_bit_mask :: "byte \<Rightarrow> byte list \<Rightarrow> byte list" where
  "set_bit_mask c m = m[unat c div 8 := (m ! (unat c div 8)) OR push_bit (unat c mod 8) 1]"

definition check_bit :: "byte list \<Rightarrow> byte \<Rightarrow> bool" where
  "check_bit m c = ((m ! (unat c div 8)) AND push_bit (unat c mod 8) 1 \<noteq> 0)"

text \<open>\<^verbatim>\<open>for (i = 0; i < slen; i++) if (!check_bit(dataptr[i])) break;\<close>\<close>

function scan_fwd :: "(nat \<Rightarrow> byte option) \<Rightarrow> byte list \<Rightarrow> nat \<Rightarrow> nat \<Rightarrow> nat option" where
  "scan_fwd rd m i slen =
     (if i < slen then
        (case rd i of
           None \<Rightarrow> None
         | Some c \<Rightarrow> if \<not> check_bit m c then Some i else scan_fwd rd m (Suc i) slen)
      else Some i)"
  by pat_completeness auto
termination
  by (relation "measure (\<lambda>(rd, m, i, slen). slen - i)") auto

text \<open>\<^verbatim>\<open>for (; slen > 0; slen--) if (!check_bit(dataptr[slen - 1])) break;\<close>\<close>

fun scan_bwd :: "(nat \<Rightarrow> byte option) \<Rightarrow> byte list \<Rightarrow> nat \<Rightarrow> nat option" where
  "scan_bwd rd m 0 = Some 0"
| "scan_bwd rd m (Suc n) =
     (case rd n of
        None \<Rightarrow> None
      | Some c \<Rightarrow> if \<not> check_bit m c then Some (Suc n) else scan_bwd rd m n)"

text \<open>\<^verbatim>\<open>p[i]\<close> for a single character.\<close>

definition peek :: "heap \<Rightarrow> xs \<Rightarrow> cptr \<Rightarrow> nat \<Rightarrow> byte option" where
  "peek h x p i = map_option hd (load h x p i 1)"

text \<open>The block of \<^verbatim>\<open>xs_trim\<close> that gives a sharing string a buffer of its own; the result
  carries the new \<^verbatim>\<open>orig\<close>.\<close>

definition trim_new_space :: "heap \<Rightarrow> xs \<Rightarrow> cptr \<Rightarrow> (heap \<times> xs \<times> cptr) option" where
  "trim_new_space h x orig = do {
     sh \<leftarrow> shared h x;
     if sh then do {
       n \<leftarrow> strlen_at h (ptr_of (w0 x));
       let (h, q) = malloc h n;
       let x = x\<lparr>w0 := ptr_val h q\<rparr>;
       let orig = ptr_of (w0 x);
       h \<leftarrow> decr h x;
       (h, x) \<leftarrow> drop_if_zero h x;
       Some (h, x, orig)
     } else Some (h, x, orig)
   }"

text \<open>The three loops of \<^verbatim>\<open>xs_trim\<close> and \<^verbatim>\<open>dataptr += i; slen -= i;\<close>: the offset \<open>i\<close> and
  the length \<open>slen\<close> of what is kept. Both are \<^verbatim>\<open>size_t\<close>, so the subtraction wraps around.\<close>

definition trim_span :: "heap \<Rightarrow> xs \<Rightarrow> byte list \<Rightarrow> (nat \<times> nat) option" where
  "trim_span h x trimset = do {
     let dataptr = xs_data x;
     let slen = xs_size x;
     trimlen \<leftarrow> strlen trimset;
     let m = fold set_bit_mask (take trimlen trimset) (replicate 32 0);
     i \<leftarrow> scan_fwd (peek h x dataptr) m 0 slen;
     slen \<leftarrow> scan_bwd (peek h x dataptr) m slen;
     Some (i, (slen + 2 ^ 64 - i) mod 2 ^ 64)
   }"

definition xs_trim :: "heap \<Rightarrow> xs \<Rightarrow> byte list \<Rightarrow> (heap \<times> xs) option" where
  "xs_trim h x trimset = (case trimset of
       [] \<Rightarrow> None
     | t # ts \<Rightarrow>
       if t = 0 then Some (h, x)
       else do {
         let dataptr = xs_data x;
         let orig = dataptr;
         (i, slen) \<leftarrow> trim_span h x trimset;
         (h, x, orig) \<leftarrow> trim_new_space h x orig;
         (h, x) \<leftarrow> memmove h x orig 0 x dataptr i slen;
         c \<leftarrow> peek h x orig slen;
         (h, x) \<leftarrow> (if c \<noteq> 0 then store h x orig slen [0] else Some (h, x));
         Some (h, if xs_is_ptr x then set_size (of_nat slen) x
                  else set_space_left (15 - of_nat slen) x)
       })"

subsection \<open>xs_cpy\<close>

definition xs_cpy :: "heap \<Rightarrow> xs \<Rightarrow> xs \<Rightarrow> (heap \<times> xs \<times> xs) option" where
  "xs_cpy h dest src =
     (if xs_is_ptr src then do {
        let dest = set_is_ptr True dest;
        let dest = dest\<lparr>w0 := w0 src\<rparr>;
        let dest = set_flag1 True dest;
        let dest = set_size (of_nat (xs_size src)) dest;
        (case refcnt src of
           None \<Rightarrow> do {
             let (h, r) = malloc_int h;
             let src = src\<lparr>refcnt := Some r\<rparr>;
             let dest = dest\<lparr>refcnt := refcnt src\<rparr>;
             Some (cnt_set h r 1, dest, src)
           }
         | Some r \<Rightarrow> do {
             let dest = dest\<lparr>refcnt := refcnt src\<rparr>;
             h \<leftarrow> incr h dest;
             Some (h, dest, src)
           })
      } else do {
        (h, dest) \<leftarrow> memcpy h dest Stk 0 src Stk 0 (xs_size src);
        let dest = set_is_ptr False dest;
        Some (h, set_space_left (15 - of_nat (xs_size src)) dest, src)
      })"

subsection \<open>Well-formed heaps\<close>

text \<open>Sizes are values of \<^verbatim>\<open>size_t\<close>: every buffer is smaller than \<open>2 ^ 64\<close> bytes.\<close>

definition heap_ok :: "heap \<Rightarrow> bool" where
  "heap_ok h = (\<forall>q sz f. buf_of h q = Some (sz, f) \<longrightarrow> sz < 2 ^ 64)"

section \<open>Bit-fields\<close>

lemma bit_bf_set:
  "bit (bf_set pos len v w) n \<longleftrightarrow>
     (if pos \<le> n \<and> n < pos + len then n < 64 \<and> bit v (n - pos) else bit w n)"
  by (auto simp add: bf_set_def bit_simps dest: bit_imp_le_length)

lemma bit_bf_get:
  "bit (bf_get pos len w) n \<longleftrightarrow> n < len \<and> bit w (pos + n)"
  by (auto simp add: bf_get_def bit_simps)

lemma bf_get_set_same:
  "pos + len \<le> 64 \<Longrightarrow> bf_get pos len (bf_set pos len v w) = take_bit len v"
  by (rule bit_word_eqI) (auto simp add: bit_bf_get bit_bf_set bit_simps)

lemma bf_get_set_other:
  "pos + len \<le> pos' \<or> pos' + len' \<le> pos \<Longrightarrow>
     bf_get pos len (bf_set pos' len' v w) = bf_get pos len w"
  by (rule bit_word_eqI) (auto simp add: bit_bf_get bit_bf_set)

lemma bf_set_set_same:
  "bf_set pos len v (bf_set pos len u w) = bf_set pos len v w"
  by (rule bit_word_eqI) (auto simp add: bit_bf_set)

section \<open>ilog2\<close>

lemma bit_unat_div: "bit (n :: 'a::len word) k \<longleftrightarrow> odd (unat n div 2 ^ k)"
proof -
  have "bit n k \<longleftrightarrow> bit (unat n) k"
    by (simp add: bit_unsigned_iff)
  then show ?thesis
    by (simp add: bit_iff_odd)
qed

lemma bit_imp_le: 
  assumes "bit (n :: 'a::len word) k" shows "2 ^ k \<le> unat n"
proof (rule ccontr)
  assume "\<not> 2 ^ k \<le> unat n"
  then have "unat n div 2 ^ k = 0" by simp
  with assms show False by (simp add: bit_unat_div)
qed

lemma nbit_imp_less:
  assumes "unat (n :: 'a::len word) < 2 ^ Suc k" and "\<not> bit n k"
  shows "unat n < 2 ^ k"
proof -
  have "unat n div 2 ^ k < 2"
    using assms(1) by (simp add: less_mult_imp_div_less)
  moreover have "even (unat n div 2 ^ k)"
    using assms(2) by (simp add: bit_unat_div)
  ultimately have "unat n div 2 ^ k = 0"
    by (cases "unat n div 2 ^ k") auto
  then show ?thesis
    by (simp add: div_eq_0_iff)
qed

lemma clz_below_bounds:
  "unat n < 2 ^ k \<Longrightarrow> n \<noteq> 0 \<Longrightarrow>
     clz_below k n < k \<and> 2 ^ (k - 1 - clz_below k n) \<le> unat n \<and> unat n < 2 ^ (k - clz_below k n)"
proof (induction k)
  case 0
  then have "unat n = 0" by simp
  with 0 show ?case by (simp add: unat_eq_0)
next
  case (Suc k)
  show ?case
  proof (cases "bit n k")
    case True
    with Suc.prems show ?thesis by (simp add: bit_imp_le)
  next
    case False
    with Suc.prems have "unat n < 2 ^ k" by (simp add: nbit_imp_less)
    with Suc.IH Suc.prems False show ?thesis by simp
  qed
qed

lemma ilog2_bounds:
  assumes "n \<noteq> 0"
  shows "\<exists>l. ilog2 n = Some l \<and> l < 32 \<and> 2 ^ l \<le> unat n \<and> unat n < 2 ^ Suc l"
proof -
  have "unat n < 2 ^ 32" using unsigned_less [of n] by simp
  from clz_below_bounds [OF this assms]
  have c: "clz_below 32 n < 32" "2 ^ (32 - 1 - clz_below 32 n) \<le> unat n"
    "unat n < 2 ^ (32 - clz_below 32 n)" by simp_all
  have "32 - clz_below 32 n = Suc (31 - clz_below 32 n)" using c(1) by simp
  with c(3) have "unat n < 2 ^ Suc (31 - clz_below 32 n)" by simp
  with c(1,2) assms show ?thesis
    by (simp add: ilog2_def builtin_clz_def del: power_Suc)
qed

lemma ilog2_eqI:
  assumes "2 ^ l \<le> unat n" "unat n < 2 ^ Suc l"
  shows "ilog2 n = Some l"
proof -
  from assms(1) have "n \<noteq> 0" by auto
  from ilog2_bounds [OF this] obtain l' where
    l': "ilog2 n = Some l'" "2 ^ l' \<le> unat n" "unat n < 2 ^ Suc l'" by blast
  have "l' < Suc l" using l'(2) assms(2) 
    by (meson le_less_trans power_less_imp_less_exp one_less_numeral_iff semiring_norm(76))
  moreover have "l < Suc l'" using l'(3) assms(1)
    by (meson le_less_trans power_less_imp_less_exp one_less_numeral_iff semiring_norm(76))
  ultimately show ?thesis using l'(1) by simp
qed

section \<open>The inline characters\<close>

lemma bit_get_byte: "bit (get_byte w i) n \<longleftrightarrow> n < 8 \<and> bit w (8 * i + n)"
  by (auto simp add: get_byte_def bit_bf_get bit_simps)

lemma get_put_byte:
  "i < 8 \<Longrightarrow> get_byte (put_byte i b w) j = (if i = j then b else get_byte w j)"
  by (rule bit_word_eqI) (auto simp add: bit_get_byte put_byte_def bit_bf_set bit_simps)

lemma get_byte_bf_set:
  "8 * i + 8 \<le> pos \<or> pos + len \<le> 8 * i \<Longrightarrow> get_byte (bf_set pos len v w) i = get_byte w i"
  by (rule bit_word_eqI) (auto simp add: bit_get_byte bit_bf_set)

lemma bf_get_put_byte:
  "8 * i + 8 \<le> pos \<or> pos + len \<le> 8 * i \<Longrightarrow> bf_get pos len (put_byte i b w) = bf_get pos len w"
  unfolding put_byte_def by (rule bf_get_set_other) auto

lemma bit_put_byte:
  "bit (put_byte i b w) n \<longleftrightarrow> (if 8 * i \<le> n \<and> n < 8 * i + 8 then n < 64 \<and> bit b (n - 8 * i) else bit w n)"
  by (auto simp add: put_byte_def bit_bf_set bit_simps)

lemma data_get_put:
  "data_put i b x = Some x' \<Longrightarrow> data_get x' j = (if i = j then Some b else data_get x j)"
  by (auto simp add: data_put_def data_get_def get_put_byte bits_of_def split: if_splits)

lemma data_put_Some:
  "i < 16 \<Longrightarrow> \<exists>x'. data_put i b x = Some x' \<and> refcnt x' = refcnt x"
  by (auto simp add: data_put_def)

lemma data_puts_Some:
  "off + length bs \<le> 16 \<Longrightarrow>
     \<exists>x'. data_puts off bs x = Some x' \<and> refcnt x' = refcnt x \<and>
          (\<forall>j. data_get x' j = (if off \<le> j \<and> j < off + length bs then Some (bs ! (j - off)) else data_get x j))"
proof (induction bs arbitrary: off x)
  case Nil
  then show ?case by auto
next
  case (Cons b bs)
  from Cons.prems have "off < 16" by simp
  from data_put_Some [OF this, of b x] obtain x1 where
    x1: "data_put off b x = Some x1" "refcnt x1 = refcnt x" by blast
  from Cons.prems have "Suc off + length bs \<le> 16" by simp
  from Cons.IH [OF this, of x1] obtain x' where
    x': "data_puts (Suc off) bs x1 = Some x'" "refcnt x' = refcnt x1"
      "\<forall>j. data_get x' j = (if Suc off \<le> j \<and> j < Suc off + length bs then Some (bs ! (j - Suc off)) else data_get x1 j)"
    by blast
  have "data_get x' j = (if off \<le> j \<and> j < off + length (b # bs) then Some ((b # bs) ! (j - off)) else data_get x j)" for j
    using x'(3) data_get_put [OF x1(1), of j]
    by (auto simp add: nth_Cons' Suc_diff_Suc not_less_eq_eq le_Suc_eq)
  with x1 x' show ?case by simp
qed

section \<open>The fields of the union\<close>

lemmas setter_defs = set_space_left_def set_is_ptr_def set_flag1_def set_size_def set_capacity_def

lemma setters_w0 [simp]:
  "w0 (set_space_left v x) = w0 x" "w0 (set_is_ptr b x) = w0 x" "w0 (set_flag1 b x) = w0 x"
  "w0 (set_size v x) = w0 x" "w0 (set_capacity v x) = w0 x"
  by (simp_all add: setter_defs)

lemma setters_refcnt [simp]:
  "refcnt (set_space_left v x) = refcnt x" "refcnt (set_is_ptr b x) = refcnt x"
  "refcnt (set_flag1 b x) = refcnt x" "refcnt (set_size v x) = refcnt x"
  "refcnt (set_capacity v x) = refcnt x"
  by (simp_all add: setter_defs)

lemma is_ptr_simps [simp]:
  "is_ptr (set_space_left v x) = is_ptr x" "is_ptr (set_is_ptr b x) = b"
  "is_ptr (set_flag1 b x) = is_ptr x" "is_ptr (set_size v x) = is_ptr x"
  "is_ptr (set_capacity v x) = is_ptr x"
  "is_ptr (x\<lparr>w0 := p\<rparr>) = is_ptr x" "is_ptr (x\<lparr>refcnt := r\<rparr>) = is_ptr x"
  by (simp_all add: is_ptr_def setter_defs bit_bf_set bit_simps)

lemma flag1_simps [simp]:
  "flag1 (set_space_left v x) = flag1 x" "flag1 (set_is_ptr b x) = flag1 x"
  "flag1 (set_flag1 b x) = b" "flag1 (set_size v x) = flag1 x"
  "flag1 (set_capacity v x) = flag1 x"
  "flag1 (x\<lparr>w0 := p\<rparr>) = flag1 x" "flag1 (x\<lparr>refcnt := r\<rparr>) = flag1 x"
  by (simp_all add: flag1_def setter_defs bit_bf_set bit_simps)

lemma size_field_simps [simp]:
  "size_field (set_space_left v x) = size_field x" "size_field (set_is_ptr b x) = size_field x"
  "size_field (set_flag1 b x) = size_field x" "size_field (set_size v x) = unat (take_bit 54 v)"
  "size_field (set_capacity v x) = size_field x"
  "size_field (x\<lparr>w0 := p\<rparr>) = size_field x" "size_field (x\<lparr>refcnt := r\<rparr>) = size_field x"
  by (simp_all add: size_field_def setter_defs bf_get_set_other bf_get_set_same)

lemma capacity_field_simps [simp]:
  "capacity_field (set_is_ptr b x) = capacity_field x"
  "capacity_field (set_flag1 b x) = capacity_field x"
  "capacity_field (set_size v x) = capacity_field x"
  "capacity_field (set_capacity v x) = unat (take_bit 6 v)"
  "capacity_field (x\<lparr>w0 := p\<rparr>) = capacity_field x"
  "capacity_field (x\<lparr>refcnt := r\<rparr>) = capacity_field x"
  by (simp_all add: capacity_field_def setter_defs bf_get_set_other bf_get_set_same)

lemma space_left_simps [simp]:
  "space_left (set_space_left v x) = unat (take_bit 4 v)"
  "space_left (set_is_ptr b x) = space_left x"
  "space_left (set_flag1 b x) = space_left x"
  "space_left (set_size v x) = space_left x"
  "space_left (x\<lparr>w0 := p\<rparr>) = space_left x"
  "space_left (x\<lparr>refcnt := r\<rparr>) = space_left x"
  by (simp_all add: space_left_def setter_defs bf_get_set_other bf_get_set_same)

lemma unat_take_bit_of_nat:
  "k \<le> 64 \<Longrightarrow> unat (take_bit k (of_nat n :: 64 word)) = n mod 2 ^ k"
proof -
  assume k: "k \<le> 64"
  have "unat (take_bit k (of_nat n :: 64 word)) = (n mod 2 ^ 64) mod 2 ^ k"
    by (simp only: unsigned_take_bit_eq) (simp add: unat_of_nat take_bit_eq_mod)
  also have "\<dots> = n mod 2 ^ k"
    by (rule mod_mod_cancel) (rule le_imp_power_dvd [OF k])
  finally show ?thesis .
qed

lemma unat_take_bit_15_minus:
  "n \<le> 15 \<Longrightarrow> unat (take_bit 4 (15 - of_nat n :: 64 word)) = 15 - n"
proof -
  assume n: "n \<le> 15"
  then have "(15 :: 64 word) - of_nat n = of_nat (15 - n)"
    by simp
  then show ?thesis using n
    by (simp add: unat_take_bit_of_nat del: of_nat_diff)
qed

lemma literal_empty_fields [simp]:
  "w0 xs_literal_empty = Chars 0" "w1 xs_literal_empty = 0" "refcnt xs_literal_empty = None"
  "\<not> is_ptr xs_literal_empty" "\<not> flag1 xs_literal_empty"
  "space_left xs_literal_empty = 0"
  by (simp_all add: xs_literal_empty_def is_ptr_def flag1_def space_left_def bf_get_def)

section \<open>Memory\<close>

lemma strlen_cstring:
  "0 \<notin> set s \<Longrightarrow> strlen (s @ 0 # rest) = Some (length s)"
proof -
  assume "0 \<notin> set s"
  then have "takeWhile (\<lambda>c. c \<noteq> 0) (s @ 0 # rest) = s"
    by (subst takeWhile_append2) auto
  then show ?thesis by (simp add: strlen_def)
qed

lemma buf_of_malloc:
  "buf_of (fst (malloc h n)) (snd (malloc h n)) = Some (n, junk h (length (blocks h)))"
  by (simp add: buf_of_def malloc_def)

lemma store_Hp:
  "buf_of h q = Some (sz, f) \<Longrightarrow> off + length bs \<le> sz \<Longrightarrow>
     store h x (Hp q) off bs =
       Some (h\<lparr>blocks := (blocks h)[q := Buf sz
          (\<lambda>i. if off \<le> i \<and> i < off + length bs then bs ! (i - off) else f i)]\<rparr>, x)"
  by (simp add: store_def)

lemma load_Hp:
  "buf_of h q = Some (sz, f) \<Longrightarrow> off + n \<le> sz \<Longrightarrow>
     load h x (Hp q) off n = Some (map f [off..<off + n])"
  by (simp add: load_def)

lemma those_map_Some:
  "(\<And>i. i \<in> set is \<Longrightarrow> g i = Some (f i)) \<Longrightarrow> those (map g is) = Some (map f is)"
  by (induction "is") auto

lemma load_Stk:
  "off + n \<le> 16 \<Longrightarrow> (\<And>i. off \<le> i \<Longrightarrow> i < off + n \<Longrightarrow> data_get x i = Some (f i)) \<Longrightarrow>
     load h x Stk off n = Some (map f [off..<off + n])"
  unfolding load_def by (simp, rule those_map_Some) auto

lemma map_nth_upt: "n \<le> length s \<Longrightarrow> map (\<lambda>i. s ! i) [0..<n] = take n s"
  by (rule nth_equalityI) auto

section \<open>xs_new\<close>

lemma is_ptr_byte15: "is_ptr x = bit (get_byte (w1 x) 7) 4"
  by (simp add: is_ptr_def bit_get_byte)

lemma flag1_byte15: "flag1 x = bit (get_byte (w1 x) 7) 5"
  by (simp add: flag1_def bit_get_byte)

lemma data_get_15: "data_get x 15 = Some (get_byte (w1 x) 7)"
  by (simp add: data_get_def)

lemma data_get_set_space_left:
  "j < 15 \<Longrightarrow> data_get (set_space_left v x) j = data_get x j"
proof (cases "j < 8")
  case True
  then show ?thesis by (simp add: data_get_def set_space_left_def)
next
  case False
  assume "j < 15"
  then have "8 * (j - 8) + 8 \<le> 56" by simp
  then have "get_byte (bf_set 56 4 v (w1 x)) (j - 8) = get_byte (w1 x) (j - 8)"
    by (simp add: get_byte_bf_set)
  with False show ?thesis by (simp add: data_get_def set_space_left_def)
qed

lemma xs_new_inline:
  assumes s: "0 \<notin> set s" and n: "length s \<le> 15"
  shows "\<exists>x. xs_new h (s @ 0 # rest) = Some (h, x) \<and> \<not> is_ptr x \<and> space_left x = 15 - length s
            \<and> refcnt x = None
            \<and> (\<forall>j<length s. data_get x j = Some (s ! j))"
proof -
  let ?n = "length s"
  have len: "Suc ?n mod 18446744073709551616 = Suc ?n" using n by simp
  have tk: "take (Suc ?n) (s @ 0 # rest) = s @ [0]" by simp
  have "0 + length (s @ [0]) \<le> 16" using n by simp
  from data_puts_Some [OF this, of xs_literal_empty]
  obtain x1 where x1: "data_puts 0 (s @ [0]) xs_literal_empty = Some x1" "refcnt x1 = None"
    "\<forall>j. data_get x1 j = (if j < Suc ?n then Some ((s @ [0]) ! j) else data_get xs_literal_empty j)"
    by auto
  have "data_get x1 15 = Some (if ?n = 15 then 0 else get_byte (w1 xs_literal_empty) 7)"
    using x1(3) [rule_format, of 15] n by (auto simp add: data_get_15 nth_append)
  then have b15: "get_byte (w1 x1) 7 = (if ?n = 15 then 0 else get_byte (w1 xs_literal_empty) 7)"
    by (simp add: data_get_15)
  have "get_byte (w1 xs_literal_empty) 7 = 0"
    by (simp add: get_byte_def bf_get_def)
  with b15 have np: "\<not> is_ptr x1"
    by (simp add: is_ptr_byte15)
  let ?x = "set_space_left (15 - of_nat ?n) x1"
  have new: "xs_new h (s @ 0 # rest) = Some (h, ?x)"
    using n by (simp add: xs_new_def strlen_cstring [OF s] len tk store_def x1(1) del: take_append)
  have "\<forall>j<?n. data_get ?x j = Some (s ! j)"
    using x1(3) n by (simp add: data_get_set_space_left nth_append)
  with new np x1(2) n show ?thesis
    by (simp add: unat_take_bit_15_minus)
qed

lemma xs_new_heap:
  assumes s: "0 \<notin> set s" and n: "15 < length s" and b: "length s + 1 < 2 ^ 32"
  shows "\<exists>l f x. ilog2 (of_nat (length s + 1)) = Some l
     \<and> xs_new h (s @ 0 # rest) = Some (h\<lparr>blocks := blocks h @ [Buf (2 ^ (l + 1)) f]\<rparr>, x)
     \<and> is_ptr x \<and> \<not> flag1 x \<and> size_field x = length s \<and> capacity_field x = l + 1
     \<and> ptr_of (w0 x) = Hp (length (blocks h)) \<and> refcnt x = None
     \<and> length s + 1 \<le> 2 ^ (l + 1)
     \<and> (\<forall>j<length s. f j = s ! j) \<and> f (length s) = 0"
proof -
  let ?n = "length s"
  have len: "Suc ?n mod 18446744073709551616 = Suc ?n" using b by simp
  have tk: "take (Suc ?n) (s @ 0 # rest) = s @ [0]" by simp
  have u: "unat (of_nat (Suc ?n) :: 32 word) = Suc ?n"
    using b by (simp add: unat_of_nat del: of_nat_Suc)
  then have "(of_nat (Suc ?n) :: 32 word) \<noteq> 0"
    by (metis nat.distinct(1) unsigned_0)
  from ilog2_bounds [OF this] obtain l where
    l: "ilog2 (of_nat (Suc ?n)) = Some l" "l < 32" "2 ^ l \<le> Suc ?n" "Suc ?n < 2 ^ Suc l"
    unfolding u by blast
  let ?x0 = "set_is_ptr True (set_size (of_nat ?n) (set_capacity (of_nat (Suc l)) xs_literal_empty))"
  let ?q = "length (blocks h)"
  let ?x = "?x0\<lparr>w0 := Addr ?q (addr h ?q)\<rparr>"
  have capu: "unat (take_bit 6 (of_nat (Suc l) :: 64 word)) = Suc l"
    using l(2) by (simp add: unat_take_bit_of_nat del: of_nat_Suc of_nat_add)
  then have cap: "capacity_field ?x0 = Suc l"
    by (simp del: of_nat_Suc of_nat_add)
  have sz: "size_field ?x0 = ?n"
    using b by (simp add: unat_take_bit_of_nat)
  let ?f = "\<lambda>i. if 0 \<le> i \<and> i < 0 + length (s @ [0]) then (s @ [0]) ! (i - 0) else junk h ?q i"
  have new: "xs_new h (s @ 0 # rest) = Some (h\<lparr>blocks := blocks h @ [Buf (2 ^ Suc l) ?f]\<rparr>, ?x)"
    using n l(4)
    by (simp add: xs_new_def strlen_cstring [OF s] len tk l(1) Let_def capu malloc_def
         ptr_of_def ptr_val_def store_def buf_of_def del: take_append of_nat_Suc of_nat_add)
  show ?thesis
    apply (rule exI [of _ l], rule exI [of _ ?f], rule exI [of _ ?x])
    using l new cap sz by (simp add: nth_append ptr_of_def del: of_nat_Suc of_nat_add)
qed

lemma xs_new_inline_content:
  assumes "\<not> is_ptr x" "space_left x = 15 - n" "n \<le> 15" "\<forall>j<n. data_get x j = Some (s ! j)" "length s = n"
  shows "xs_size x = n \<and> xs_content h x = Some s"
proof -
  have sz: "xs_size x = n" using assms(1,2,3) by (simp add: xs_size_def xs_is_ptr_def)
  have "load h x Stk 0 n = Some (map (\<lambda>j. s ! j) [0..<0 + n])"
    using assms(3,4) by (intro load_Stk) auto
  then have "load h x Stk 0 n = Some s"
    using assms(5) by (simp add: map_nth_upt)
  with sz assms(1) show ?thesis
    by (simp add: xs_content_def xs_data_def xs_is_ptr_def)
qed

text \<open>Up to \<open>2 ^ 32 - 2\<close> characters \<^verbatim>\<open>xs_new\<close> returns a value of the size of the string
  that holds its characters.\<close>

lemma xs_new_short:
  assumes "0 \<notin> set s" and "length s + 1 < 2 ^ 32"
  shows "\<exists>h' x. xs_new h (s @ 0 # rest) = Some (h', x) \<and> xs_size x = length s \<and> xs_content h' x = Some s"
proof (cases "length s \<le> 15")
  case True
  from xs_new_inline [OF assms(1) True, of h rest] obtain x where
    x: "xs_new h (s @ 0 # rest) = Some (h, x)" "\<not> is_ptr x" "space_left x = 15 - length s"
       "\<forall>j<length s. data_get x j = Some (s ! j)" by blast
  from xs_new_inline_content [OF x(2,3) True x(4) refl, of h] x(1) show ?thesis by blast
next
  case False
  then have "15 < length s" by simp
  from xs_new_heap [OF assms(1) this assms(2), of h rest] obtain l f x where
    x: "xs_new h (s @ 0 # rest) = Some (h\<lparr>blocks := blocks h @ [Buf (2 ^ (l + 1)) f]\<rparr>, x)"
       "is_ptr x" "size_field x = length s" "ptr_of (w0 x) = Hp (length (blocks h))"
       "length s + 1 \<le> 2 ^ (l + 1)" "\<forall>j<length s. f j = s ! j" by blast
  let ?h = "h\<lparr>blocks := blocks h @ [Buf (2 ^ (l + 1)) f]\<rparr>"
  have sz: "xs_size x = length s" using x(2,3) by (simp add: xs_size_def xs_is_ptr_def)
  have "buf_of ?h (length (blocks h)) = Some (2 ^ (l + 1), f)" by (simp add: buf_of_def)
  from load_Hp [OF this, of 0 "length s" x] x(5)
  have "load ?h x (Hp (length (blocks h))) 0 (length s) = Some (map f [0..<length s])" by simp
  also have "map f [0..<length s] = map (\<lambda>j. s ! j) [0..<length s]" using x(6) by simp
  also have "\<dots> = s" by (simp add: map_nth_upt)
  finally have "xs_content ?h x = Some s"
    using x(2,4) sz by (simp add: xs_content_def xs_data_def xs_is_ptr_def)
  with x(1) sz show ?thesis by blast
qed


section \<open>Evaluation of concrete runs\<close>

lemmas bf_eval = bf_set_def bf_get_def push_bit_eq_mult take_bit_eq_mod drop_bit_eq_div mask_eq_exp_minus_1

lemmas field_defs = space_left_def is_ptr_def flag1_def size_field_def capacity_field_def
  set_space_left_def set_is_ptr_def set_flag1_def set_size_def set_capacity_def
  get_byte_def put_byte_def data_get_def data_put_def ptr_of_def bits_of_def ptr_val_def
  xs_is_ptr_def xs_size_def xs_data_def xs_capacity_def xs_literal_empty_def

lemmas field_simps_del = setters_w0 setters_refcnt is_ptr_simps flag1_simps size_field_simps capacity_field_simps space_left_simps

lemmas mem_defs = load_def store_def memmove_def memcpy_def buf_of_def cnt_of_def cnt_set_def
  malloc_def malloc_int_def free_def free_cnt_def realloc_def strlen_def strlen_at_def xs_content_def
  peek_def shared_def decr_def incr_def drop_if_zero_def
  concat_new_space_def concat_release_def trim_new_space_def xs_free_def xs_newempty_def

lemma scan_bwd_unfold:
  "scan_bwd rd m n = (if n = 0 then Some 0 else (case rd (n - 1) of None \<Rightarrow> None
      | Some c \<Rightarrow> if \<not> check_bit m c then Some n else scan_bwd rd m (n - 1)))"
  by (cases n) (auto split: option.splits)

lemmas trim_defs = xs_trim_def trim_span_def set_bit_mask_def check_bit_def scan_bwd_unfold scan_fwd.simps

lemma ilog2_16: "ilog2 16 = Some 4" by (rule ilog2_eqI) simp_all
lemma ilog2_18: "ilog2 18 = Some 4" by (rule ilog2_eqI) simp_all
lemma ilog2_19: "ilog2 19 = Some 4" by (rule ilog2_eqI) simp_all
lemma ilog2_21: "ilog2 21 = Some 4" by (rule ilog2_eqI) simp_all
lemma ilog2_32: "ilog2 32 = Some 5" by (rule ilog2_eqI) simp_all

section \<open>The loops of xs_trim\<close>

declare scan_fwd.simps [simp del]

lemma scan_fwd_spec:
  "scan_fwd rd m s n = Some i \<Longrightarrow> s \<le> n \<Longrightarrow>
     s \<le> i \<and> i \<le> n \<and> (\<forall>k. s \<le> k \<and> k < i \<longrightarrow> (\<exists>c. rd k = Some c \<and> check_bit m c)) \<and>
     (i < n \<longrightarrow> (\<exists>c. rd i = Some c \<and> \<not> check_bit m c))"
proof (induction rd m s n rule: scan_fwd.induct)
  case (1 rd m s n)
  show ?case
  proof (cases "s < n")
    case False
    with "1.prems" show ?thesis by (auto simp add: scan_fwd.simps [of rd m s n])
  next
    case True
    then obtain c where c: "rd s = Some c"
      using "1.prems"(1) by (cases "rd s") (simp_all add: scan_fwd.simps [of rd m s n])
    show ?thesis
    proof (cases "check_bit m c")
      case False
      with True c "1.prems" show ?thesis by (auto simp add: scan_fwd.simps [of rd m s n])
    next
      case cb: True
      with True c "1.prems" have rec: "scan_fwd rd m (Suc s) n = Some i"
        by (simp add: scan_fwd.simps [of rd m s n])
      from "1.IH" [OF True c _ rec] cb True
      have ih: "Suc s \<le> i" "i \<le> n"
        "\<forall>k. Suc s \<le> k \<and> k < i \<longrightarrow> (\<exists>c. rd k = Some c \<and> check_bit m c)"
        "i < n \<longrightarrow> (\<exists>c. rd i = Some c \<and> \<not> check_bit m c)" by auto
      have "\<exists>c. rd k = Some c \<and> check_bit m c" if "s \<le> k \<and> k < i" for k
        using that ih(3) c cb by (cases "k = s") auto
      with ih show ?thesis by auto
    qed
  qed
qed

lemma scan_bwd_spec:
  "scan_bwd rd m n = Some j \<Longrightarrow>
     j \<le> n \<and> (0 < j \<longrightarrow> (\<exists>c. rd (j - 1) = Some c \<and> \<not> check_bit m c)) \<and>
     (\<forall>k. j \<le> k \<and> k < n \<longrightarrow> (\<exists>c. rd k = Some c \<and> check_bit m c))"
proof (induction n)
  case 0
  then show ?case by simp
next
  case (Suc n)
  then obtain c where c: "rd n = Some c" by (cases "rd n") simp_all
  show ?case
  proof (cases "check_bit m c")
    case False
    with c Suc.prems show ?thesis by auto
  next
    case True
    with c Suc.prems have "scan_bwd rd m n = Some j" by simp
    from Suc.IH [OF this] have ih: "j \<le> n" "0 < j \<longrightarrow> (\<exists>c. rd (j - 1) = Some c \<and> \<not> check_bit m c)"
      "\<forall>k. j \<le> k \<and> k < n \<longrightarrow> (\<exists>c. rd k = Some c \<and> check_bit m c)" by auto
    have "\<exists>c. rd k = Some c \<and> check_bit m c" if "j \<le> k \<and> k < Suc n" for k
      using that ih(3) c True by (cases "k = n") auto
    with ih show ?thesis by auto
  qed
qed

text \<open>The two scans together: either the span is proper, or every character is in the set.\<close>

lemma scans_meet:
  assumes f: "scan_fwd rd m 0 n = Some i" and b: "scan_bwd rd m n = Some j"
  shows "i \<le> j \<and> j \<le> n \<or> (j = 0 \<and> i = n \<and> 0 < n)"
proof -
  from scan_fwd_spec [OF f] have F: "i \<le> n"
    "\<forall>k. k < i \<longrightarrow> (\<exists>c. rd k = Some c \<and> check_bit m c)"
    "i < n \<longrightarrow> (\<exists>c. rd i = Some c \<and> \<not> check_bit m c)" by auto
  from scan_bwd_spec [OF b] have B: "j \<le> n"
    "0 < j \<longrightarrow> (\<exists>c. rd (j - 1) = Some c \<and> \<not> check_bit m c)"
    "\<forall>k. j \<le> k \<and> k < n \<longrightarrow> (\<exists>c. rd k = Some c \<and> check_bit m c)" by auto
  show ?thesis
  proof (cases "0 < j")
    case True
    with B(2) obtain c where "rd (j - 1) = Some c" "\<not> check_bit m c" by blast
    with F(2) have "\<not> j - 1 < i" by force
    with True B(1) show ?thesis by simp
  next
    case False
    then have j0: "j = 0" by simp
    have "\<not> i < n"
    proof
      assume "i < n"
      with F(3) obtain c where "rd i = Some c" "\<not> check_bit m c" by blast
      moreover from B(3) j0 \<open>i < n\<close> have "\<exists>c. rd i = Some c \<and> check_bit m c" by simp
      ultimately show False by force
    qed
    with F(1) have "i = n" by simp
    with j0 show ?thesis by auto
  qed
qed

section \<open>Frame properties of the heap\<close>

lemma buf_of_update_other:
  "(\<And>sz f. b \<noteq> Buf sz f) \<Longrightarrow> buf_of (h\<lparr>blocks := (blocks h)[r := b]\<rparr>) q = Some v \<Longrightarrow>
     buf_of h q = Some v"
  by (cases "q = r") (auto simp add: buf_of_def split: if_splits block.splits)

lemma buf_of_cnt_set: "buf_of (cnt_set h r c) q = Some v \<Longrightarrow> buf_of h q = Some v"
  unfolding cnt_set_def by (rule buf_of_update_other) auto

lemma buf_of_malloc_cases:
  "buf_of (fst (malloc h n)) q =
     (if q = length (blocks h) then Some (n, junk h (length (blocks h))) else buf_of h q)"
  by (auto simp add: buf_of_def malloc_def nth_append)

lemma heap_ok_malloc: "heap_ok h \<Longrightarrow> n < 2 ^ 64 \<Longrightarrow> heap_ok (fst (malloc h n))"
proof -
  assume ok: "heap_ok h" and n: "n < 2 ^ 64"
  show ?thesis
    unfolding heap_ok_def
  proof (intro allI impI)
    fix q sz f
    assume a: "buf_of (fst (malloc h n)) q = Some (sz, f)"
    show "sz < 2 ^ 64"
    proof (cases "q = length (blocks h)")
      case True
      with a n show ?thesis by (simp add: buf_of_malloc_cases)
    next
      case False
      with a have "buf_of h q = Some (sz, f)" by (simp add: buf_of_malloc_cases)
      with ok show ?thesis unfolding heap_ok_def by blast
    qed
  qed
qed

lemma heap_ok_cnt_set: "heap_ok h \<Longrightarrow> heap_ok (cnt_set h r c)"
  unfolding heap_ok_def by (blast dest: buf_of_cnt_set)

lemma decr_Some:
  "decr h x = Some h1 \<Longrightarrow> \<exists>r c. refcnt x = Some r \<and> cnt_of h r = Some c \<and> h1 = cnt_set h r (c - 1)"
  by (auto simp add: decr_def bind_eq_Some_conv split: option.splits if_splits)

lemma drop_if_zero_Some:
  "drop_if_zero h x = Some (h2, x2) \<Longrightarrow>
     \<exists>r c. refcnt x = Some r \<and> cnt_of h r = Some c \<and>
       (c = 0 \<longrightarrow> h2 = h\<lparr>blocks := (blocks h)[r := Freed]\<rparr> \<and> x2 = x\<lparr>refcnt := None\<rparr>) \<and>
       (c \<noteq> 0 \<longrightarrow> h2 = h \<and> x2 = x)"
  by (auto simp add: drop_if_zero_def free_cnt_def bind_eq_Some_conv split: option.splits if_splits)

lemma drop_if_zero_cases:
  "drop_if_zero h x = Some (h2, x2) \<Longrightarrow>
     (h2 = h \<and> x2 = x) \<or> (\<exists>r. h2 = h\<lparr>blocks := (blocks h)[r := Freed]\<rparr> \<and> x2 = x\<lparr>refcnt := None\<rparr>)"
  by (auto simp add: drop_if_zero_def free_cnt_def bind_eq_Some_conv split: option.splits if_splits)

lemma heap_ok_update_Freed: "heap_ok h \<Longrightarrow> heap_ok (h\<lparr>blocks := (blocks h)[r := Freed]\<rparr>)"
  unfolding heap_ok_def
proof (intro allI impI)
  fix q sz f
  assume ok: "\<forall>q sz f. buf_of h q = Some (sz, f) \<longrightarrow> sz < 2 ^ 64"
  assume "buf_of (h\<lparr>blocks := (blocks h)[r := Freed]\<rparr>) q = Some (sz, f)"
  then have "buf_of h q = Some (sz, f)" by (rule buf_of_update_other [rotated]) simp
  with ok show "sz < 2 ^ 64" by blast
qed

lemma heap_ok_drop_if_zero:
  "drop_if_zero h x = Some (h2, x2) \<Longrightarrow> heap_ok h \<Longrightarrow> heap_ok h2 \<and> w0 x2 = w0 x \<and> w1 x2 = w1 x"
  by (drule drop_if_zero_cases) (auto simp add: heap_ok_update_Freed)

lemma strlen_less: "strlen l = Some n \<Longrightarrow> n < length l"
proof -
  assume a: "strlen l = Some n"
  then have "0 \<in> set l" "n = length (takeWhile (\<lambda>c. c \<noteq> 0) l)"
    by (auto simp add: strlen_def split: if_splits)
  moreover have "dropWhile (\<lambda>c. c \<noteq> 0) l \<noteq> []"
    using \<open>0 \<in> set l\<close> by (auto simp add: dropWhile_eq_Nil_conv)
  moreover have "length l = length (takeWhile (\<lambda>c. c \<noteq> 0) l) + length (dropWhile (\<lambda>c. c \<noteq> 0) l)"
    by (metis length_append takeWhile_dropWhile_id)
  ultimately show ?thesis by simp
qed

lemma buf_size_ok: "heap_ok h \<Longrightarrow> buf_of h q = Some (sz, f) \<Longrightarrow> sz < 2 ^ 64"
  unfolding heap_ok_def by blast

lemma strlen_at_bound: "strlen_at h p = Some n \<Longrightarrow> heap_ok h \<Longrightarrow> n < 2 ^ 64"
proof -
  assume a: "strlen_at h p = Some n" and ok: "heap_ok h"
  from a obtain q sz f where q: "buf_of h q = Some (sz, f)" "strlen (map f [0..<sz]) = Some n"
    by (auto simp add: strlen_at_def split: cptr.splits option.splits)
  from strlen_less [OF q(2)] have "n < sz" by simp
  with buf_size_ok [OF ok q(1)] show ?thesis by simp
qed

lemma store_frame: "store h x p off bs = Some (h', x') \<Longrightarrow> p \<noteq> Stk \<Longrightarrow> x' = x"
  by (auto simp add: store_def split: cptr.splits option.splits if_splits)

lemma memmove_frame: "memmove h dx d doff sx s soff n = Some (h', x') \<Longrightarrow> d \<noteq> Stk \<Longrightarrow> x' = dx"
  by (auto simp add: memmove_def split: option.splits dest: store_frame)

lemma load_bound: "load h x p off n = Some bs \<Longrightarrow> heap_ok h \<Longrightarrow> off + n < 2 ^ 64"
  by (auto simp add: load_def split: cptr.splits option.splits if_splits dest!: buf_size_ok)

lemma memmove_bound:
  "memmove h dx d doff sx s soff n = Some r \<Longrightarrow> heap_ok h \<Longrightarrow> soff + n < 2 ^ 64"
  by (auto simp add: memmove_def split: option.splits dest: load_bound)

lemma ptr_of_not_Stk [simp]: "ptr_of v \<noteq> Stk"
  by (simp add: ptr_of_def split: word0.splits)

lemma xs_size_bound: "xs_size x < 2 ^ 54"
proof -
  have "unat (take_bit 54 (w1 x)) < 2 ^ 54"
    using take_bit_nat_less_exp [of 54 "unat (w1 x)"] by (simp only: unsigned_take_bit_eq)
  then show ?thesis
    by (auto simp add: xs_size_def size_field_def bf_get_def)
qed

section \<open>xs_trim\<close>

lemma trim_new_space_Some:
  assumes "trim_new_space h x orig = Some (h2, x2, orig2)" and ok: "heap_ok h"
  shows "heap_ok h2 \<and> w1 x2 = w1 x \<and> (orig2 = orig \<or> orig2 \<noteq> Stk)"
proof -
  from assms(1) obtain sh where sh: "shared h x = Some sh"
    by (auto simp add: trim_new_space_def bind_eq_Some_conv)
  show ?thesis
  proof (cases sh)
    case False
    with assms sh show ?thesis by (simp add: trim_new_space_def)
  next
    case True
    with assms(1) sh obtain n h1 where
      n: "strlen_at h (ptr_of (w0 x)) = Some n"
      and h1: "decr (fst (malloc h n))
                 (x\<lparr>w0 := ptr_val (fst (malloc h n)) (snd (malloc h n))\<rparr>) = Some h1"
      and d: "drop_if_zero h1
                 (x\<lparr>w0 := ptr_val (fst (malloc h n)) (snd (malloc h n))\<rparr>) = Some (h2, x2)"
      and o: "orig2 = ptr_of (ptr_val (fst (malloc h n)) (snd (malloc h n)))"
      by (auto simp add: trim_new_space_def bind_eq_Some_conv Let_def split_beta)
    from heap_ok_malloc [OF ok strlen_at_bound [OF n ok]] have "heap_ok (fst (malloc h n))" .
    with decr_Some [OF h1] have "heap_ok h1" by (auto simp add: heap_ok_cnt_set)
    from heap_ok_drop_if_zero [OF d this] o show ?thesis by simp
  qed
qed

lemma xs_trim_SomeE:
  assumes "xs_trim h x (t # ts) = Some (h', x')" and "t \<noteq> 0"
    and "\<And>m i j slen h2 x2 orig h3 x3 c x4.
      scan_fwd (peek h x (xs_data x)) m 0 (xs_size x) = Some i \<Longrightarrow>
      scan_bwd (peek h x (xs_data x)) m (xs_size x) = Some j \<Longrightarrow>
      trim_new_space h x (xs_data x) = Some (h2, x2, orig) \<Longrightarrow>
      memmove h2 x2 orig 0 x2 (xs_data x) i slen = Some (h3, x3) \<Longrightarrow>
      peek h3 x3 orig slen = Some c \<Longrightarrow>
      (if c \<noteq> 0 then store h3 x3 orig slen [0] else Some (h3, x3)) = Some (h', x4) \<Longrightarrow>
      x' = (if xs_is_ptr x4 then set_size (of_nat slen) x4
            else set_space_left (15 - of_nat slen) x4) \<Longrightarrow>
      slen = (j + 2 ^ 64 - i) mod 2 ^ 64 \<Longrightarrow> P"
  shows P
  using assms(1,2)
  apply (clarsimp simp add: xs_trim_def trim_span_def Let_def bind_eq_Some_conv)
  apply (rule assms(3); (assumption | simp))
  done

text \<open>Whenever \<^verbatim>\<open>xs_trim\<close> returns, the \<^verbatim>\<open>xs_size\<close> of the result is at most the one
  before.\<close>

lemma xs_trim_returns_size_le:
  assumes ok: "heap_ok h" and t: "xs_trim h x trimset = Some (h', x')"
  shows "xs_size x' \<le> xs_size x"
proof (cases trimset)
  case Nil
  with t show ?thesis by (simp add: xs_trim_def)
next
  case (Cons t0 ts)
  show ?thesis
  proof (cases "t0 = 0")
    case True
    with t Cons show ?thesis by (simp add: xs_trim_def)
  next
    case False
    define n where "n = xs_size x"
    from t [unfolded Cons] False
    obtain m i j slen h2 x2 orig h3 x3 c x4 where
      f: "scan_fwd (peek h x (xs_data x)) m 0 (xs_size x) = Some i"
      and b: "scan_bwd (peek h x (xs_data x)) m (xs_size x) = Some j"
      and ns: "trim_new_space h x (xs_data x) = Some (h2, x2, orig)"
      and mm: "memmove h2 x2 orig 0 x2 (xs_data x) i slen = Some (h3, x3)"
      and pk: "peek h3 x3 orig slen = Some c"
      and st: "(if c \<noteq> 0 then store h3 x3 orig slen [0] else Some (h3, x3)) = Some (h', x4)"
      and x': "x' = (if xs_is_ptr x4 then set_size (of_nat slen) x4
                     else set_space_left (15 - of_nat slen) x4)"
      and slen_def: "slen = (j + 2 ^ 64 - i) mod 2 ^ 64"
      by (rule xs_trim_SomeE) blast
    note f = f [folded n_def] and b = b [folded n_def]
    from trim_new_space_Some [OF ns ok] have ok2: "heap_ok h2" and w1: "w1 x2 = w1 x"
      and orig: "orig = xs_data x \<or> orig \<noteq> Stk" by simp_all
    have nb: "n < 2 ^ 64" using xs_size_bound [of x] unfolding n_def
      by (rule less_trans) simp
    from memmove_bound [OF mm ok2] have mb: "i + slen < 2 ^ 64" .
    have span: "i \<le> j \<and> j \<le> n"
    proof (rule ccontr)
      assume "\<not> (i \<le> j \<and> j \<le> n)"
      with scans_meet [OF f b] have "j = 0" "i = n" "0 < n" by auto
      with nb have "slen = 2 ^ 64 - i" unfolding slen_def by simp
      with mb \<open>i = n\<close> nb show False by simp
    qed
    then have ij: "i \<le> j" and jn: "j \<le> n" by simp_all
    from ij have "j + 2 ^ 64 - i = (j - i) + (2 ^ 64 :: nat)" by simp
    moreover have "j - i < 2 ^ 64" using jn nb by linarith
    ultimately have slen: "slen = j - i" unfolding slen_def by (simp only: mod_add_self2 mod_less)
    with jn have le: "slen \<le> n" by linarith
    show ?thesis
    proof (cases "xs_is_ptr x4")
      case True
      with x' have "xs_size x' = slen mod 2 ^ 54"
        by (simp add: xs_size_def xs_is_ptr_def unat_take_bit_of_nat)
      also have "\<dots> \<le> slen" by simp
      finally show ?thesis using le unfolding n_def by simp
    next
      case np4: False
      have np: "\<not> xs_is_ptr x"
      proof
        assume p: "xs_is_ptr x"
        then have "xs_data x \<noteq> Stk" by (simp add: xs_data_def)
        with orig have o: "orig \<noteq> Stk" by auto
        from memmove_frame [OF mm o] have "x3 = x2" .
        moreover from st o have "x4 = x3" by (auto split: if_splits dest: store_frame)
        ultimately have "w1 x4 = w1 x" using w1 by simp
        with p np4 show False by (simp add: xs_is_ptr_def is_ptr_def)
      qed
      then have "n \<le> 15" unfolding n_def by (simp add: xs_size_def)
      with le have s15: "slen \<le> 15" by simp
      from np4 x' have "xs_size x' = 15 - unat (take_bit 4 (15 - of_nat slen :: 64 word))"
        by (simp add: xs_size_def xs_is_ptr_def)
      also have "\<dots> = slen" using s15 by (simp add: unat_take_bit_15_minus)
      finally show ?thesis using le unfolding n_def by simp
    qed
  qed
qed

section \<open>The claims\<close>

text \<open>
  Claim C1 fails on the code. \<^verbatim>\<open>xs_cpy\<close> sets \<^verbatim>\<open>flag1\<close> on the copy only, so \<^verbatim>\<open>xs_trim\<close> on
  the source \<open>a\<close> works in the buffer that the copy \<open>b\<close> still points at: after
  \<^verbatim>\<open>a = xs_new("  aaaaaaaaaaaaaaaa")\<close>, \<^verbatim>\<open>b = xs_cpy(&xs_literal_empty(), &a)\<close> and
  \<^verbatim>\<open>xs_trim(&a, " ")\<close> the 18 bytes of \<open>b\<close> are no longer the ones it was given.
\<close>

theorem xs_trim_source_changes_copy:
  "do { (h, a) \<leftarrow> xs_new \<lparr>blocks = [], junk = j, addr = ad\<rparr>
                    [32, 32, 97, 97, 97, 97, 97, 97, 97, 97, 97, 97, 97, 97, 97, 97, 97, 97, 0];
        (h, b, a) \<leftarrow> xs_cpy h xs_literal_empty a;
        (h', a') \<leftarrow> xs_trim h a [32, 0];
        Some (xs_size b, xs_content h b, xs_content h' a', xs_content h' b) }
   = Some (18,
        Some [32, 32, 97, 97, 97, 97, 97, 97, 97, 97, 97, 97, 97, 97, 97, 97, 97, 97],
        Some [97, 97, 97, 97, 97, 97, 97, 97, 97, 97, 97, 97, 97, 97, 97, 97],
        Some [97, 97, 97, 97, 97, 97, 97, 97, 97, 97, 97, 97, 97, 97, 97, 97, 0, 97])"
  by (simp add: xs_new_def xs_cpy_def trim_defs mem_defs field_defs bf_eval ilog2_19
      upt_conv_Cons del: field_simps_del)

text \<open>
  Claim C2 fails on the code. The in-place branch of \<^verbatim>\<open>xs_concat\<close> assigns \<^verbatim>\<open>space_left\<close>
  also when the string is on the heap, where these four bits belong to \<^verbatim>\<open>capacity\<close>, and
  leaves \<^verbatim>\<open>size\<close> as it was: a string of 17 bytes with a prefix and a suffix of one byte each
  still has \<^verbatim>\<open>xs_size\<close> 17, and the 17 bytes at \<^verbatim>\<open>xs_data\<close> are the prefix and the first 16
  bytes of the old content.
\<close>

theorem xs_concat_in_place_size:
  "do { (h, v) \<leftarrow> xs_new \<lparr>blocks = [], junk = j, addr = ad\<rparr>
                    [97, 97, 97, 97, 97, 97, 97, 97, 97, 97, 97, 97, 97, 97, 97, 97, 97, 0];
        (h, p) \<leftarrow> xs_new h [120, 0];
        (h, s) \<leftarrow> xs_new h [121, 0];
        (h, v') \<leftarrow> xs_concat h v p s;
        Some (xs_size p, xs_size v, xs_size s, xs_size v', xs_content h v') }
   = Some (1, 17, 1, 17,
        Some [120, 97, 97, 97, 97, 97, 97, 97, 97, 97, 97, 97, 97, 97, 97, 97, 97])"
  by (simp add: xs_new_def xs_concat_def mem_defs field_defs bf_eval ilog2_18 upt_conv_Cons
      del: field_simps_del)

text \<open>
  Claim C3 fails on the code. The size field holds lengths up to \<open>2 ^ 54 - 1\<close>, but \<^verbatim>\<open>xs_new\<close>
  passes \<^verbatim>\<open>strlen(p) + 1\<close> to \<^verbatim>\<open>ilog2\<close>, whose parameter is a \<^verbatim>\<open>uint32_t\<close>. For a string of
  \<open>2 ^ 32 - 1\<close> characters the argument is 0 and \<^verbatim>\<open>__builtin_clz(0)\<close> is undefined; for a
  longer one the buffer is computed from the low 32 bits of the length and \<^verbatim>\<open>memcpy\<close> writes
  past its end. No string of \<open>2 ^ 32 - 1\<close> to \<open>2 ^ 54 - 1\<close> characters is constructed.
\<close>

theorem xs_new_long:
  assumes s: "0 \<notin> set s" and lo: "2 ^ 32 \<le> length s + 1" and hi: "length s < 2 ^ 54"
  shows "xs_new h (s @ 0 # rest) = None"
proof -
  let ?n = "length s"
  have "Suc ?n < 18446744073709551616" using hi by simp
  then have len: "Suc ?n mod 18446744073709551616 = Suc ?n" by simp
  have big: "16 < Suc ?n" using lo by simp
  have tk: "take (Suc ?n) (s @ 0 # rest) = s @ [0]" by simp
  show ?thesis
  proof (cases "(of_nat (Suc ?n) :: 32 word) = 0")
    case True
    then have "ilog2 (of_nat (Suc ?n)) = None" by (simp add: ilog2_def builtin_clz_def)
    then show ?thesis
      using big by (simp add: xs_new_def strlen_cstring [OF s] len del: of_nat_Suc of_nat_add)
  next
    case False
    from ilog2_bounds [OF this] obtain l where
      l: "ilog2 (of_nat (Suc ?n)) = Some l" "l < 32" by blast
    have "Suc ?n \<noteq> 2 ^ 32"
    proof
      assume "Suc ?n = 2 ^ 32"
      then have "(of_nat (Suc ?n) :: 32 word) = 0" by (simp del: of_nat_Suc)
      with False show False by simp
    qed
    moreover have "(2::nat) ^ Suc l \<le> 2 ^ 32" using l(2) by (intro power_increasing) simp_all
    ultimately have small: "2 ^ Suc l < Suc ?n" using lo by simp
    have capu: "unat (take_bit 6 (of_nat (Suc l) :: 64 word)) = Suc l"
      using l(2) by (simp add: unat_take_bit_of_nat del: of_nat_Suc of_nat_add)
    show ?thesis
      using big small
      by (simp add: xs_new_def strlen_cstring [OF s] len tk l(1) Let_def capu malloc_def
           ptr_of_def ptr_val_def store_def buf_of_def del: take_append of_nat_Suc of_nat_add)
  qed
qed

theorem xs_new_long_witness:
  "0 \<notin> set (replicate 4294967295 (97 :: byte)) \<and>
   2 ^ 32 \<le> length (replicate 4294967295 (97 :: byte)) + 1 \<and>
   length (replicate 4294967295 (97 :: byte)) < 2 ^ 54 \<and>
   xs_new \<lparr>blocks = [], junk = (\<lambda>q i. 0), addr = (\<lambda>q. 16 * of_nat q + 16)\<rparr> (replicate 4294967295 97 @ 0 # []) = None"
  using xs_new_long [of "replicate 4294967295 97" "\<lparr>blocks = [], junk = (\<lambda>q i. 0), addr = (\<lambda>q. 16 * of_nat q + 16)\<rparr>" "[]"]
  by simp

text \<open>
  Claim C4, as amended. \<^verbatim>\<open>xs_new\<close> yields the inline layout when the length is at most 15 and
  the heap layout when it exceeds 15; in the heap case the capacity is the least \<open>2 ^ k - 1\<close>
  that is at least the length plus one (the terminator is counted), not the least one that is
  at least the length.
\<close>

theorem xs_new_capacity:
  assumes "0 \<notin> set s" and "length s + 1 < 2 ^ 32"
  shows "\<exists>h' x. xs_new h (s @ 0 # rest) = Some (h', x) \<and> (xs_is_ptr x \<longleftrightarrow> 15 < length s) \<and>
           (15 < length s \<longrightarrow>
             (\<exists>k. xs_capacity x = 2 ^ k - 1 \<and> length s + 1 \<le> 2 ^ k - 1 \<and>
                  (\<forall>j. length s + 1 \<le> 2 ^ j - 1 \<longrightarrow> k \<le> j)))"
proof (cases "length s \<le> 15")
  case True
  from xs_new_inline [OF assms(1) True, of h rest] show ?thesis
    using True by (auto simp add: xs_is_ptr_def)
next
  case False
  then have n: "15 < length s" by simp
  from xs_new_heap [OF assms(1) this assms(2), of h rest] obtain l f x where
    x: "ilog2 (of_nat (length s + 1)) = Some l"
       "xs_new h (s @ 0 # rest) = Some (h\<lparr>blocks := blocks h @ [Buf (2 ^ (l + 1)) f]\<rparr>, x)"
       "is_ptr x" "capacity_field x = l + 1" "length s + 1 \<le> 2 ^ (l + 1)" by blast
  have u: "unat (of_nat (length s + 1) :: 32 word) = length s + 1"
    using assms(2) by (simp add: unat_of_nat del: of_nat_Suc of_nat_add)
  then have "(of_nat (length s + 1) :: 32 word) \<noteq> 0"
    by (metis Suc_eq_plus1 nat.distinct(1) unsigned_0)
  from ilog2_bounds [OF this] x(1) have l: "2 ^ l \<le> length s + 1" "length s + 1 < 2 ^ Suc l"
    unfolding u by auto
  have cap: "xs_capacity x = 2 ^ (l + 1) - 1"
    using x(3,4) by (simp add: xs_capacity_def xs_is_ptr_def)
  have up: "length s + 1 \<le> 2 ^ (l + 1) - 1" using l(2) by simp
  have least: "l + 1 \<le> j" if "length s + 1 \<le> 2 ^ j - 1" for j
  proof -
    have "(2::nat) ^ l < 2 ^ j" using that l(1) zero_less_power [of "2::nat" j] by linarith
    then have "l < j" by (simp add: power_strict_increasing_iff)
    then show ?thesis by simp
  qed
  have "\<exists>k. xs_capacity x = 2 ^ k - 1 \<and> length s + 1 \<le> 2 ^ k - 1 \<and>
          (\<forall>j. length s + 1 \<le> 2 ^ j - 1 \<longrightarrow> k \<le> j)"
    using cap up least by blast
  with x(2,3) n show ?thesis by (simp add: xs_is_ptr_def)
qed

theorem xs_new_capacity_witness:
  "0 \<notin> set (replicate 17 (97 :: byte)) \<and> length (replicate 17 (97 :: byte)) + 1 < 2 ^ 32 \<and>
   (\<exists>h' x. xs_new \<lparr>blocks = [], junk = (\<lambda>q i. 0), addr = (\<lambda>q. 16 * of_nat q + 16)\<rparr> (replicate 17 97 @ 0 # []) = Some (h', x) \<and>
       xs_is_ptr x \<and>
       (\<exists>k. xs_capacity x = 2 ^ k - 1 \<and> (18 :: nat) \<le> 2 ^ k - 1 \<and>
            (\<forall>j. (18 :: nat) \<le> 2 ^ j - 1 \<longrightarrow> k \<le> j)))"
  using xs_new_capacity [of "replicate 17 97" "\<lparr>blocks = [], junk = (\<lambda>q i. 0), addr = (\<lambda>q. 16 * of_nat q + 16)\<rparr>" "[]"]
  by simp

text \<open>A string of 31 characters gets the capacity 63, although \<open>31 = 2 ^ 5 - 1\<close>.\<close>

theorem xs_new_capacity_counterexample:
  "map_option (\<lambda>(h, x). xs_capacity x)
     (xs_new \<lparr>blocks = [], junk = (\<lambda>q i. 0), addr = (\<lambda>q. 16 * of_nat q + 16)\<rparr> (replicate 31 97 @ [0])) = Some 63
   \<and> (31 :: nat) \<le> 2 ^ 5 - 1 \<and> (2 :: nat) ^ 5 - 1 < 63"
proof -
  have "ilog2 (of_nat (length (replicate 31 (97 :: byte)) + 1)) = Some 5"
    by (rule ilog2_eqI) simp_all
  with xs_new_heap [of "replicate 31 97" "\<lparr>blocks = [], junk = (\<lambda>q i. 0), addr = (\<lambda>q. 16 * of_nat q + 16)\<rparr>" "[]"]
  obtain h' x where "xs_new \<lparr>blocks = [], junk = (\<lambda>q i. 0), addr = (\<lambda>q. 16 * of_nat q + 16)\<rparr> (replicate 31 97 @ [0]) = Some (h', x)"
    "is_ptr x" "capacity_field x = 6"
    by auto
  then show ?thesis
    by (simp add: xs_capacity_def xs_is_ptr_def)
qed

text \<open>
  Claim C5 fails on the code. \<^verbatim>\<open>xs_grow\<close> passes the buffer to \<^verbatim>\<open>realloc\<close> without looking at
  the reference count; the old buffer is deallocated, and the copy \<open>b\<close> that shares it is left
  with a pointer to no object: its content can no longer be read.
\<close>

theorem xs_grow_shared:
  "do { (h, a) \<leftarrow> xs_new \<lparr>blocks = [], junk = j, addr = ad\<rparr>
                    [97, 97, 97, 97, 97, 97, 97, 97, 97, 97, 97, 97, 97, 97, 97, 97, 97, 0];
        (h, b, a) \<leftarrow> xs_cpy h xs_literal_empty a;
        (h', a') \<leftarrow> xs_grow h a 32;
        Some (xs_content h b, xs_capacity a, xs_capacity a', xs_content h' b) }
   = Some (Some [97, 97, 97, 97, 97, 97, 97, 97, 97, 97, 97, 97, 97, 97, 97, 97, 97], 31, 63,
        None)"
  by (simp add: xs_new_def xs_cpy_def xs_grow_def mem_defs field_defs bf_eval ilog2_18 ilog2_32
      upt_conv_Cons del: field_simps_del)

text \<open>
  Claim C6 fails on the code. When \<^verbatim>\<open>xs_grow\<close> moves an inline string to the heap it copies
  the 16 raw bytes and sets \<^verbatim>\<open>is_ptr\<close> and \<^verbatim>\<open>capacity\<close>, but not \<^verbatim>\<open>size\<close>, which now reads the
  bits that held \<^verbatim>\<open>data[8..14]\<close>: \<^verbatim>\<open>"abc"\<close> grown to 16 has capacity 31 and size 0.
\<close>

theorem xs_grow_inline_size:
  "do { (h, x) \<leftarrow> xs_new \<lparr>blocks = [], junk = j, addr = ad\<rparr> [97, 98, 99, 0];
        (h', x') \<leftarrow> xs_grow h x 16;
        Some (xs_size x, xs_content h x, xs_capacity x', xs_size x', xs_content h' x') }
   = Some (3, Some [97, 98, 99], 31, 0, Some [])"
  by (simp add: xs_new_def xs_grow_def mem_defs field_defs bf_eval ilog2_16 upt_conv_Cons
      del: field_simps_del)

text \<open>
  Claim C7 fails on the code. \<^verbatim>\<open>xs_cpy\<close> starts the count at 1 when two values point at the
  buffer, and only the copy is marked with \<^verbatim>\<open>flag1\<close>. When the copy \<open>b\<close> is trimmed the count
  reaches 0 and is freed, and the pointer of \<open>b\<close> is cleared; but the source \<open>a\<close>, which still
  points at the buffer, keeps its pointer to the freed count, and the next \<^verbatim>\<open>xs_cpy\<close> of \<open>a\<close>
  increments a freed object. The three tuples are the state after the copy, the state after
  the trim, and the result of the second copy.
\<close>

theorem xs_cpy_count_dangling:
  "do { (h, a) \<leftarrow> xs_new \<lparr>blocks = [], junk = j, addr = ad\<rparr>
                    [32, 32, 97, 97, 97, 97, 97, 97, 97, 97, 97, 97, 97, 97, 97, 97, 97, 97, 0];
        (h1, b, a) \<leftarrow> xs_cpy h xs_literal_empty a;
        (h2, b') \<leftarrow> xs_trim h1 b [32, 0];
        Some ((xs_data a, xs_data b, refcnt a, refcnt b, cnt_of h1 1),
              (xs_data a, xs_data b', refcnt a, refcnt b', cnt_of h2 1),
              map_option (\<lambda>(h3, c, a). refcnt c) (xs_cpy h2 xs_literal_empty a)) }
   = Some ((Hp 0, Hp 0, Some 1, Some 1, Some 1),
           (Hp 0, Hp 2, Some 1, None, None),
           None)"
  by (auto simp add: xs_new_def xs_cpy_def trim_defs mem_defs field_defs bf_eval ilog2_19
      upt_conv_Cons simp del: field_simps_del set_upt list.set_map)

text \<open>
  Claim C8 fails on the code, by the assignment to \<^verbatim>\<open>space_left\<close> of claim C2: it overwrites
  the upper four bits of the capacity exponent. A string of 17 bytes (exponent 5) concatenated
  in place to 31 bytes is left with the exponent 1, that is with capacity 1.
\<close>

theorem xs_concat_in_place_capacity:
  "do { (h, v) \<leftarrow> xs_new \<lparr>blocks = [], junk = j, addr = ad\<rparr>
                    [97, 97, 97, 97, 97, 97, 97, 97, 97, 97, 97, 97, 97, 97, 97, 97, 97, 0];
        (h, p) \<leftarrow> xs_new h [98, 98, 98, 98, 98, 98, 98, 0];
        (h, s) \<leftarrow> xs_new h [99, 99, 99, 99, 99, 99, 99, 0];
        (h, v') \<leftarrow> xs_concat h v p s;
        Some (xs_capacity v, xs_is_ptr v', xs_capacity v') }
   = Some (31, True, 1)"
  by (simp add: xs_new_def xs_concat_def mem_defs field_defs bf_eval ilog2_18 upt_conv_Cons
      del: field_simps_del)

text \<open>
  Claim C9 fails on the code. \<^verbatim>\<open>xs_trim\<close> on a sharing copy allocates \<^verbatim>\<open>strlen(x->ptr)\<close>
  bytes, without room for the terminator, and keeps \<^verbatim>\<open>flag1\<close>; with two copies of \<open>a\<close>, the
  first trim of \<open>b\<close> returns, and the second one allocates 16 bytes for 16 characters and
  then reads \<^verbatim>\<open>orig[16]\<close>, outside the buffer.
\<close>

theorem xs_trim_twice_shared:
  "do { (h, a) \<leftarrow> xs_new \<lparr>blocks = [], junk = j, addr = ad\<rparr>
                    [32, 32, 97, 97, 97, 97, 97, 97, 97, 97, 97, 97, 97, 97, 97, 97, 97, 97, 0];
        (h, b, a) \<leftarrow> xs_cpy h xs_literal_empty a;
        (h, c, a) \<leftarrow> xs_cpy h xs_literal_empty a;
        (h', b') \<leftarrow> xs_trim h b [32, 0];
        Some (xs_content h' b', map_option (\<lambda>(h, b). xs_content h b) (xs_trim h' b' [32, 0])) }
   = Some (Some [97, 97, 97, 97, 97, 97, 97, 97, 97, 97, 97, 97, 97, 97, 97, 97], None)"
  by (auto simp add: xs_new_def xs_cpy_def trim_defs mem_defs field_defs bf_eval ilog2_19
      upt_conv_Cons simp del: field_simps_del set_upt list.set_map)
    (simp_all add: eval_nat_numeral)

text \<open>
  Claim C10 fails on the code. On a string made only of characters of the trim set the first
  loop ends with \<open>i\<close> equal to the size and the second one with \<open>slen = 0\<close>, so that
  \<^verbatim>\<open>slen -= i\<close> wraps around: for 20 characters \<^verbatim>\<open>xs_trim\<close> goes on with the length
  \<open>2 ^ 64 - 20\<close>, which it passes to \<^verbatim>\<open>memmove\<close> and then assigns to \<^verbatim>\<open>size\<close>. This holds for
  the string \<open>a\<close> and for its copy \<open>b\<close>, for which \<^verbatim>\<open>xs_trim\<close> first allocates a buffer of its
  own (block 2) and frees the count; \<^verbatim>\<open>memmove\<close> with this length is outside every buffer.
\<close>

theorem xs_trim_span_wraps:
  "do { (h, a) \<leftarrow> xs_new \<lparr>blocks = [], junk = j, addr = ad\<rparr>
                    [97, 97, 97, 97, 97, 97, 97, 97, 97, 97, 97, 97, 97, 97, 97, 97, 97, 97, 97, 97, 0];
        (h, b, a) \<leftarrow> xs_cpy h xs_literal_empty a;
        Some ((xs_size a, trim_span h a [97, 0],
               map_option (\<lambda>(h', a'). xs_size a') (xs_trim h a [97, 0])),
              (xs_size b, trim_span h b [97, 0],
               map_option (\<lambda>(h', b', orig). (orig, refcnt b', cnt_of h' 1))
                 (trim_new_space h b (xs_data b)),
               map_option (\<lambda>(h', b'). xs_size b') (xs_trim h b [97, 0]))) }
   = Some ((20, Some (20, 18446744073709551596), None),
           (20, Some (20, 18446744073709551596), Some (Hp 2, None, None), None))"
  by (auto simp add: xs_new_def xs_cpy_def trim_defs mem_defs field_defs bf_eval ilog2_21
      upt_conv_Cons simp del: field_simps_del set_upt list.set_map)

end
